theory Spec2Isabelle
  imports Main "HOL-Library.FSet" "HOL-Library.Word"
begin

unbundle bit_operations_syntax

section \<open>Data model\<close>

text \<open>
  The script copies or moves the files of a source tree that carry a given extension
  into one flat target directory. The target directory is modelled by the finite set
  of the names of its entries: every destination the script builds is
  \<^verbatim>\<open>target_dir / filename\<close> with a file name that holds no separator, so
  \<^verbatim>\<open>dest_path.exists()\<close> is membership of the name in that set.
\<close>

type_synonym byte = "8 word"
type_synonym dir = "string fset"

text \<open>
  The exceptions that the per-file \<^verbatim>\<open>try\<close> meets: \<^verbatim>\<open>ValueError\<close> (with the
  algorithm name of its message), the \<^verbatim>\<open>TypeError\<close> of a \<^verbatim>\<open>hexdigest()\<close> that
  needs a length, and \<^verbatim>\<open>OSError\<close> (a file that cannot be opened, a failed existence
  check, copy, move or write to the standard output).
\<close>

datatype error = ValueError string | TypeError | OSError

text \<open>
  One path produced by \<^verbatim>\<open>source_dir.rglob('*')\<close>: its final component
  (\<^verbatim>\<open>file_path.name\<close>), whether it is a regular file, whether it lies in the target
  directory itself (the target may be inside the source tree, whose default is the
  current directory), and its bytes (\<open>None\<close> when \<^verbatim>\<open>file_path.open('rb')\<close> raises).
\<close>

record path_entry =
  name :: string
  is_file :: bool
  in_target :: bool
  content :: "byte list option"

text \<open>The command line: \<^verbatim>\<open>-M\<close>, \<^verbatim>\<open>-P\<close>, \<^verbatim>\<open>-E\<close>, \<^verbatim>\<open>-C\<close>, \<^verbatim>\<open>-A\<close>.\<close>

record args =
  move :: bool
  prefix_length :: int
  extension :: string
  case_sensitive :: bool
  algorithm :: string

text \<open>
  The lines the run prints: the success line and the failure line of a file (lines 136
  and 138), and the final count (line 140).
\<close>

datatype log_line = Success path_entry string | Failure path_entry error | Summary nat

text \<open>
  A hash object of \<^verbatim>\<open>hashlib\<close>: either of fixed digest size, given by the function
  from the bytes fed to it to its raw digest, or of extendable output
  (\<^verbatim>\<open>shake_128\<close>, \<^verbatim>\<open>shake_256\<close>), whose \<^verbatim>\<open>hexdigest()\<close> without a length
  raises \<^verbatim>\<open>TypeError\<close>.
\<close>

datatype hash_object = Fixed_size "byte list \<Rightarrow> byte list" | Extendable

text \<open>
  The library calls whose code is not part of the script are parameters of the model:
  \<^item> \<^verbatim>\<open>zlib.crc32(chunk, value)\<close>;
  \<^item> \<^verbatim>\<open>hashlib.new(name)\<close>: \<open>None\<close> when it raises \<^verbatim>\<open>ValueError\<close>,
    otherwise the hash object;
  \<^item> the exception, if any, that a \<^verbatim>\<open>Path.exists()\<close> raises while the file is
    named (a name too long for the file system, a directory that cannot be searched);
    every check that raises nothing is answered by the set of names;
  \<^item> \<^verbatim>\<open>shutil.move\<close> (flag \<open>True\<close>) and \<^verbatim>\<open>shutil.copy2\<close> (flag \<open>False\<close>):
    the exception raised, if any, and the target directory afterwards;
  \<^item> \<^verbatim>\<open>print\<close>: the exception, if any, that writing a line raises, given the lines
    written before it (a closed pipe, a name the output encoding cannot render).
\<close>

record externals =
  zlib_crc32 :: "byte list \<Rightarrow> int \<Rightarrow> int"
  hashlib_new :: "string \<Rightarrow> hash_object option"
  exists_raises :: "args \<Rightarrow> dir \<Rightarrow> path_entry \<Rightarrow> error option"
  shutil_place :: "bool \<Rightarrow> path_entry \<Rightarrow> string \<Rightarrow> dir \<Rightarrow> error option \<times> dir"
  print_raises :: "log_line list \<Rightarrow> log_line \<Rightarrow> error option"

section \<open>Python's string functions\<close>

text \<open>\<^verbatim>\<open>str(n)\<close> of an integer: its decimal digits, with a minus sign below zero.\<close>

fun str_nat :: "nat \<Rightarrow> string" where
  "str_nat n =
     (if n < 10 then [''0123456789'' ! n]
      else str_nat (n div 10) @ [''0123456789'' ! (n mod 10)])"

declare str_nat.simps [simp del]

definition str :: "int \<Rightarrow> string" where
  "str i = (if i < 0 then CHR ''-'' # str_nat (nat (- i)) else str_nat (nat i))"

text \<open>
  \<^verbatim>\<open>s.upper()\<close> and \<^verbatim>\<open>s.lower()\<close>, on the ASCII letters; every other
  character is left as it is.
\<close>

definition ascii_lowercase :: string where
  "ascii_lowercase = ''abcdefghijklmnopqrstuvwxyz''"

definition ascii_uppercase :: string where
  "ascii_uppercase = ''ABCDEFGHIJKLMNOPQRSTUVWXYZ''"

definition upper_char :: "char \<Rightarrow> char" where
  "upper_char c =
     (case map_of (zip ascii_lowercase ascii_uppercase) c of Some u \<Rightarrow> u | None \<Rightarrow> c)"

definition lower_char :: "char \<Rightarrow> char" where
  "lower_char c =
     (case map_of (zip ascii_uppercase ascii_lowercase) c of Some l \<Rightarrow> l | None \<Rightarrow> c)"

definition upper :: "string \<Rightarrow> string" where
  "upper s = map upper_char s"

definition lower :: "string \<Rightarrow> string" where
  "lower s = map lower_char s"

text \<open>\<^verbatim>\<open>s.rfind(c)\<close>: the last index of \<open>c\<close> in \<open>s\<close>, or \<open>-1\<close>.\<close>

fun rfind :: "char \<Rightarrow> string \<Rightarrow> int" where
  "rfind c [] = - 1"
| "rfind c (x # xs) =
     (let r = rfind c xs in if 0 \<le> r then r + 1 else if x = c then 0 else - 1)"

text \<open>
  \<^verbatim>\<open>os.path.splitext\<close> (the POSIX flavour): the extension starts at the last dot
  that follows the last separator, unless only dots stand between the separator and it.
\<close>

definition splitext :: "string \<Rightarrow> string \<times> string" where
  "splitext p =
     (let sepIndex = rfind (CHR ''/'') p;
          dotIndex = rfind (CHR ''.'') p
      in if dotIndex > sepIndex \<and>
            list_ex (\<lambda>i. p ! i \<noteq> CHR ''.'') [nat (sepIndex + 1) ..< nat dotIndex]
         then (take (nat dotIndex) p, drop (nat dotIndex) p)
         else (p, []))"

text \<open>
  \<^verbatim>\<open>PurePath.suffix\<close> of a path whose final component is \<open>nm\<close>: the text from
  the last dot on, when that dot is neither the first nor the last character.
\<close>

definition suffix :: "string \<Rightarrow> string" where
  "suffix nm =
     (let i = rfind (CHR ''.'') nm
      in if 0 < i \<and> i < int (length nm) - 1 then drop (nat i) nm else [])"

text \<open>\<^verbatim>\<open>hexdigest()\<close>: two lowercase hexadecimal digits for each byte of the digest.\<close>

definition hex_byte :: "byte \<Rightarrow> string" where
  "hex_byte b = [''0123456789abcdef'' ! (unat b div 16), ''0123456789abcdef'' ! (unat b mod 16)]"

definition hexdigest :: "byte list \<Rightarrow> string" where
  "hexdigest bs = concat (map hex_byte bs)"

text \<open>
  \<^verbatim>\<open>iter(lambda: f.read(n), b'')\<close>: the blocks of \<open>n\<close> bytes of the file, the
  last one shorter, up to the first empty read.
\<close>

function read_chunks :: "nat \<Rightarrow> byte list \<Rightarrow> byte list list" where
  "read_chunks n bs = (if n = 0 \<or> bs = [] then [] else take n bs # read_chunks n (drop n bs))"
  by pat_completeness auto
termination
  by (relation "measure (\<lambda>(n, bs). length bs)") auto

declare read_chunks.simps [simp del]

section \<open>\<^verbatim>\<open>get_unique_path\<close>\<close>

text \<open>
  The loop of \<^verbatim>\<open>get_unique_path\<close>, with its variables \<open>filename\<close> and
  \<open>counter\<close>. It leaves only through the \<^verbatim>\<open>return\<close>, so it is a partial
  function: \<open>None\<close> stands for a loop that never returns.
\<close>

partial_function (option) unique_loop ::
  "dir \<Rightarrow> string \<Rightarrow> string \<Rightarrow> string \<Rightarrow> nat \<Rightarrow> string option" where
  "unique_loop dest_dir base ext filename counter =
     (if filename |\<notin>| dest_dir then Some filename
      else unique_loop dest_dir base ext (base @ ''_'' @ str (int counter) @ ext) (counter + 1))"

declare unique_loop.simps [code]

definition get_unique_path :: "dir \<Rightarrow> string \<Rightarrow> string option" where
  "get_unique_path dest_dir filename =
     (case splitext filename of (base, ext) \<Rightarrow> unique_loop dest_dir base ext filename 1)"

text \<open>
  The names the loop tries, by the number of collisions seen: the name itself, then
  stem, underscore, number and extension.
\<close>

definition candidate :: "string \<Rightarrow> nat \<Rightarrow> string" where
  "candidate filename n =
     (if n = 0 then filename
      else fst (splitext filename) @ ''_'' @ str (int n) @ snd (splitext filename))"

section \<open>\<^verbatim>\<open>compute_file_hash\<close>\<close>

definition compute_file_hash :: "externals \<Rightarrow> path_entry \<Rightarrow> string \<Rightarrow> error + string" where
  "compute_file_hash ex file_path alg =
     (let algorithm_upper = upper alg in
      if algorithm_upper = ''CRC32'' then
        (case content file_path of
           None \<Rightarrow> Inl OSError
         | Some bs \<Rightarrow>
             (let hash_val = foldl (\<lambda>v chunk. zlib_crc32 ex chunk v) 0 (read_chunks 4096 bs)
              in Inr (str (hash_val AND 0xffffffff))))
      else
        (case hashlib_new ex (lower alg) of
           None \<Rightarrow> Inl (ValueError alg)
         | Some hash_obj \<Rightarrow>
             (case content file_path of
                None \<Rightarrow> Inl OSError
              | Some bs \<Rightarrow>
                  (case hash_obj of
                     Fixed_size digest \<Rightarrow>
                       Inr (hexdigest (digest (foldl (@) [] (read_chunks 4096 bs))))
                   | Extendable \<Rightarrow> Inl TypeError))))"

section \<open>The naming decision of \<^verbatim>\<open>main\<close>\<close>

text \<open>
  The prefix loop of \<^verbatim>\<open>main\<close> (lines 116 to 125), instrumented: beside the
  destination it records every value the variable \<open>prefix_len\<close> takes and whether
  the loop left through \<^verbatim>\<open>get_unique_path\<close>.
\<close>

record naming =
  lens :: "nat list"
  fell_back :: bool
  dest_path :: "string option"

function probe_prefix :: "dir \<Rightarrow> string \<Rightarrow> string \<Rightarrow> nat \<Rightarrow> naming" where
  "probe_prefix target_dir full_hash nm prefix_len =
     (if take prefix_len full_hash @ ''_'' @ nm |\<notin>| target_dir then
        \<lparr>lens = [prefix_len], fell_back = False,
         dest_path = Some (take prefix_len full_hash @ ''_'' @ nm)\<rparr>
      else if length full_hash \<le> prefix_len then
        \<lparr>lens = [prefix_len], fell_back = True,
         dest_path = get_unique_path target_dir (take prefix_len full_hash @ ''_'' @ nm)\<rparr>
      else
        (let r = probe_prefix target_dir full_hash nm (prefix_len + 1)
         in r\<lparr>lens := prefix_len # lens r\<rparr>))"
  by pat_completeness auto
termination
  by (relation "measure (\<lambda>(target_dir, full_hash, nm, prefix_len). length full_hash - prefix_len)") auto

declare probe_prefix.simps [simp del]

text \<open>
  Lines 112 to 128, with every existence check answered by the set of names: the
  destination name chosen for one file, \<open>Inl\<close> the exception raised by the hashing,
  \<open>None\<close> when a loop does not return.
\<close>

definition choose_dest :: "externals \<Rightarrow> args \<Rightarrow> dir \<Rightarrow> path_entry \<Rightarrow> (error + string) option" where
  "choose_dest ex a target_dir file_path =
     (if prefix_length a \<noteq> 0 then
        (case compute_file_hash ex file_path (algorithm a) of
           Inl e \<Rightarrow> Some (Inl e)
         | Inr full_hash \<Rightarrow>
             map_option Inr
               (dest_path (probe_prefix target_dir full_hash (name file_path)
                  (nat \<bar>prefix_length a\<bar>))))
      else map_option Inr (get_unique_path target_dir (name file_path)))"

text \<open>
  The naming of Mode B in the words of the specification: the first free name among the
  digest prefixes of length \<open>|L|\<close> up to the full digest, and otherwise the numeric
  suffix scheme on the name prefixed with the full digest.
\<close>

definition mode_b_spec :: "dir \<Rightarrow> string \<Rightarrow> string \<Rightarrow> int \<Rightarrow> string option" where
  "mode_b_spec target_dir digest nm L =
     (let p = nat \<bar>L\<bar>
      in case List.find (\<lambda>q. take q digest @ ''_'' @ nm |\<notin>| target_dir)
                [p ..< Suc (max p (length digest))] of
           Some q \<Rightarrow> Some (take q digest @ ''_'' @ nm)
         | None \<Rightarrow> get_unique_path target_dir (digest @ ''_'' @ nm))"

section \<open>The loop over the files\<close>

text \<open>Lines 99 and 106 to 109: the extension test.\<close>

definition normalized_ext :: "string \<Rightarrow> string" where
  "normalized_ext e = (case e of c # cs \<Rightarrow> if c = CHR ''.'' then e else CHR ''.'' # e | [] \<Rightarrow> CHR ''.'' # e)"

definition match_ext :: "args \<Rightarrow> path_entry \<Rightarrow> bool" where
  "match_ext a file_path =
     (let ext = normalized_ext (extension a)
      in if case_sensitive a then suffix (name file_path) = ext
         else lower (suffix (name file_path)) = lower ext)"













section \<open>The library parameters\<close>

text \<open>
  The algorithm names of the docstring of \<^verbatim>\<open>compute_file_hash\<close> and of the help
  text of \<^verbatim>\<open>-A\<close>.
\<close>

definition supported_algorithms :: "string list" where
  "supported_algorithms = [''CRC32'', ''MD2'', ''MD4'', ''MD5'', ''SHA256'', ''SHA384'', ''SHA512'']"

text \<open>
  \<^verbatim>\<open>hashlib.algorithms_guaranteed\<close>, the names that \<^verbatim>\<open>hashlib.new\<close> accepts on
  every platform: those of fixed digest size, and those of extendable output.
\<close>

definition algorithms_guaranteed :: "string list" where
  "algorithms_guaranteed =
     [''md5'', ''sha1'', ''sha224'', ''sha256'', ''sha384'', ''sha512'',
      ''sha3_224'', ''sha3_256'', ''sha3_384'', ''sha3_512'', ''blake2b'', ''blake2s'']"

definition extendable_guaranteed :: "string list" where
  "extendable_guaranteed = [''shake_128'', ''shake_256'']"

definition provides_guaranteed :: "externals \<Rightarrow> bool" where
  "provides_guaranteed ex =
     (list_all (\<lambda>n. case hashlib_new ex n of Some (Fixed_size digest) \<Rightarrow> True | _ \<Rightarrow> False)
        algorithms_guaranteed \<and>
      list_all (\<lambda>n. hashlib_new ex n = Some Extendable) extendable_guaranteed)"



text \<open>
  One instance of the parameters, for running the model on examples: an additive
  checksum in the place of CRC-32, the guaranteed names (those of fixed size with the
  fed bytes themselves as their digest), existence checks and prints that raise
  nothing, and a placement that always succeeds and only adds the destination.
\<close>

definition example_externals :: externals where
  "example_externals =
     \<lparr>zlib_crc32 = (\<lambda>chunk v. (v + sum_list (map uint chunk)) mod 2 ^ 32),
      hashlib_new =
        (\<lambda>n. if n \<in> set algorithms_guaranteed then Some (Fixed_size (\<lambda>bs. bs))
              else if n \<in> set extendable_guaranteed then Some Extendable else None),
      exists_raises = (\<lambda>a D file_path. None),
      shutil_place = (\<lambda>mv file_path dest D. (None, finsert dest D)),
      print_raises = (\<lambda>ls l. None)\<rparr>"



section \<open>Properties of the numeric-suffix loop\<close>

lemma str_nat_nonempty: "str_nat n \<noteq> []"
  by (subst str_nat.simps) simp

lemma digit_inj: "a < 10 \<Longrightarrow> b < 10 \<Longrightarrow> ''0123456789'' ! a = ''0123456789'' ! b \<Longrightarrow> a = b"
proof -
  assume a: "a < 10" and b: "b < 10" and e: "''0123456789'' ! a = ''0123456789'' ! b"
  have d: "distinct ''0123456789''" by simp
  have "a < length ''0123456789''" "b < length ''0123456789''" using a b by simp_all
  with d e show "a = b" by (simp only: nth_eq_iff_index_eq)
qed

lemma str_nat_inj: "str_nat a = str_nat b \<Longrightarrow> a = b"
proof (induction a arbitrary: b rule: str_nat.induct)
  case (1 a)
  show ?case
  proof (cases "a < 10")
    case True
    then have sa: "str_nat a = [''0123456789'' ! a]" by (subst str_nat.simps) simp
    show ?thesis
    proof (cases "b < 10")
      case True
      then have "str_nat b = [''0123456789'' ! b]" by (subst str_nat.simps) simp
      with sa "1.prems" have "''0123456789'' ! a = ''0123456789'' ! b" by simp
      with \<open>a < 10\<close> True show ?thesis by (rule digit_inj)
    next
      case False
      then have "str_nat b = str_nat (b div 10) @ [''0123456789'' ! (b mod 10)]"
        by (subst str_nat.simps) simp
      with sa "1.prems" have "str_nat (b div 10) = []" by simp
      then show ?thesis using str_nat_nonempty by blast
    qed
  next
    case False
    then have sa: "str_nat a = str_nat (a div 10) @ [''0123456789'' ! (a mod 10)]"
      by (subst str_nat.simps) simp
    show ?thesis
    proof (cases "b < 10")
      case True
      then have "str_nat b = [''0123456789'' ! b]" by (subst str_nat.simps) simp
      with sa "1.prems" have "str_nat (a div 10) = []" by simp
      then show ?thesis using str_nat_nonempty by blast
    next
      case bf: False
      then have sb: "str_nat b = str_nat (b div 10) @ [''0123456789'' ! (b mod 10)]"
        by (subst str_nat.simps) simp
      from sa sb "1.prems" have e1: "str_nat (a div 10) = str_nat (b div 10)"
        and e2: "''0123456789'' ! (a mod 10) = ''0123456789'' ! (b mod 10)" by simp_all
      from "1.IH" [OF False e1] have d: "a div 10 = b div 10" .
      have "a mod 10 = b mod 10" by (rule digit_inj [OF _ _ e2]) simp_all
      with d show ?thesis by (metis div_mult_mod_eq)
    qed
  qed
qed

lemma str_int_inj: "str (int a) = str (int b) \<Longrightarrow> a = b"
  by (simp add: str_def str_nat_inj)

lemma splitext_append: "fst (splitext p) @ snd (splitext p) = p"
  by (simp add: splitext_def Let_def)

lemma candidate_inj: "candidate fn m = candidate fn n \<Longrightarrow> m = n"
proof -
  assume e: "candidate fn m = candidate fn n"
  obtain b x where bx: "splitext fn = (b, x)" by (cases "splitext fn")
  then have fn: "fn = b @ x" using splitext_append [of fn] by simp
  have neq: "b @ ''_'' @ str (int k) @ x \<noteq> b @ x" for k
  proof
    assume "b @ ''_'' @ str (int k) @ x = b @ x"
    then have "length (b @ ''_'' @ str (int k) @ x) = length (b @ x)" by simp
    then show False by simp
  qed
  show ?thesis
  proof (cases "m = 0")
    case True
    then show ?thesis using e neq [of n] fn bx by (auto simp: candidate_def split: if_splits)
  next
    case False
    show ?thesis
    proof (cases "n = 0")
      case True
      then show ?thesis using e neq [of m] fn bx False by (auto simp: candidate_def split: if_splits)
    next
      case nz: False
      from e False nz bx have "str (int m) = str (int n)" by (simp add: candidate_def)
      then show ?thesis by (rule str_int_inj)
    qed
  qed
qed

lemma unique_loop_finds:
  "candidate fn n |\<notin>| D \<Longrightarrow> c \<le> n \<Longrightarrow> \<forall>k. c \<le> k \<and> k < n \<longrightarrow> candidate fn k |\<in>| D \<Longrightarrow>
   unique_loop D (fst (splitext fn)) (snd (splitext fn)) (candidate fn c) (c + 1) = Some (candidate fn n)"
proof (induction "n - c" arbitrary: c)
  case 0
  then have "c = n" by simp
  with "0.prems" show ?case by (subst unique_loop.simps) simp
next
  case (Suc d)
  then have lt: "c < n" by simp
  with Suc.prems have inD: "candidate fn c |\<in>| D" by simp
  have step: "unique_loop D (fst (splitext fn)) (snd (splitext fn)) (candidate fn c) (c + 1) =
      unique_loop D (fst (splitext fn)) (snd (splitext fn)) (candidate fn (c + 1)) (c + 1 + 1)"
    using inD by (subst unique_loop.simps) (simp add: candidate_def)
  have "unique_loop D (fst (splitext fn)) (snd (splitext fn)) (candidate fn (c + 1)) (c + 1 + 1) =
      Some (candidate fn n)"
  proof (rule Suc.hyps(1))
    show "d = n - (c + 1)" using Suc.hyps(2) by simp
    show "candidate fn n |\<notin>| D" by (rule Suc.prems(1))
    show "c + 1 \<le> n" using lt by simp
    show "\<forall>k. c + 1 \<le> k \<and> k < n \<longrightarrow> candidate fn k |\<in>| D" using Suc.prems(3) by simp
  qed
  with step show ?case by simp
qed

lemma fresh_candidate_exists: "\<exists>n\<le>fcard D. candidate fn n |\<notin>| D"
proof (rule ccontr)
  assume "\<not> (\<exists>n\<le>fcard D. candidate fn n |\<notin>| D)"
  then have sub: "candidate fn ` {..fcard D} \<subseteq> fset D" by auto
  have "inj_on (candidate fn) {..fcard D}" by (rule inj_onI) (rule candidate_inj)
  then have "card (candidate fn ` {..fcard D}) = fcard D + 1" by (simp add: card_image)
  moreover have "card (candidate fn ` {..fcard D}) \<le> card (fset D)"
    by (rule card_mono [OF _ sub]) simp
  ultimately show False by (simp add: fcard.rep_eq)
qed

lemma get_unique_path_least:
  "\<exists>n\<le>fcard D. get_unique_path D fn = Some (candidate fn n) \<and> candidate fn n |\<notin>| D \<and>
     (\<forall>k<n. candidate fn k |\<in>| D)"
proof -
  define n where "n = (LEAST n. candidate fn n |\<notin>| D)"
  obtain m where m: "m \<le> fcard D" "candidate fn m |\<notin>| D" using fresh_candidate_exists by blast
  have fresh: "candidate fn n |\<notin>| D" unfolding n_def using m(2) by (rule LeastI)
  have "n \<le> m" unfolding n_def using m(2) by (rule Least_le)
  with m(1) have bound: "n \<le> fcard D" by simp
  have below: "\<forall>k<n. candidate fn k |\<in>| D"
    unfolding n_def using not_less_Least by blast
  have "unique_loop D (fst (splitext fn)) (snd (splitext fn)) (candidate fn 0) (0 + 1) =
      Some (candidate fn n)"
    using fresh below by (intro unique_loop_finds) simp_all
  then have "get_unique_path D fn = Some (candidate fn n)"
    by (simp add: get_unique_path_def candidate_def split_beta)
  with bound fresh below show ?thesis by blast
qed

text \<open>
  C8. Numeric-suffix probing always terminates: for every file name and every finite
  target directory, \<open>get_unique_path\<close> returns. It returns the first candidate that the
  directory does not hold, every candidate before it is held, and the number of
  suffixes tried is at most the number of entries of the directory.
\<close>

theorem suffix_probing_terminates:
  "\<exists>n\<le>fcard D. get_unique_path D fn = Some (candidate fn n) \<and> candidate fn n |\<notin>| D \<and>
     (\<forall>k<n. candidate fn k |\<in>| D)"
  by (rule get_unique_path_least)

theorem suffix_probing_terminates_witness:
  "get_unique_path {|''a.txt''|} ''a.txt'' = Some ''a_1.txt''"
proof -
  obtain n where n: "n \<le> fcard {|''a.txt''|}"
    and r: "get_unique_path {|''a.txt''|} ''a.txt'' = Some (candidate ''a.txt'' n)"
    and f: "candidate ''a.txt'' n |\<notin>| {|''a.txt''|}"
    using suffix_probing_terminates [of "{|''a.txt''|}" "''a.txt''"] by blast
  have "n \<noteq> 0" using f by (cases "n = 0") (simp_all add: candidate_def)
  moreover have "n \<le> 1" using n by (simp add: fcard_finsert_if fcard_fempty)
  ultimately have "n = 1" by simp
  then show ?thesis using r
    by (simp add: candidate_def splitext_def str_def str_nat.simps)
qed

section \<open>Properties of \<^verbatim>\<open>compute_file_hash\<close>\<close>

lemma read_chunks_foldl: "0 < n \<Longrightarrow> foldl (@) acc (read_chunks n bs) = acc @ bs"
proof (induction n bs arbitrary: acc rule: read_chunks.induct)
  case (1 n bs)
  show ?case
  proof (cases "bs = []")
    case True
    then show ?thesis by (subst read_chunks.simps) simp
  next
    case False
    have "foldl (@) (acc @ take n bs) (read_chunks n (drop n bs)) = (acc @ take n bs) @ drop n bs"
      using "1.prems" False by (intro "1.IH") simp_all
    with False "1.prems" show ?thesis by (subst read_chunks.simps) simp
  qed
qed

lemma read_chunks_concat: "foldl (@) [] (read_chunks 4096 bs) = bs"
  using read_chunks_foldl [of 4096 "[]" bs] by simp

lemma mask32: "(x :: int) AND 0xffffffff = x mod 2 ^ 32"
proof -
  have m: "(mask 32 :: int) = 0xffffffff" by (simp add: mask_eq_exp_minus_1)
  have "x AND mask 32 = x mod 2 ^ 32"
    by (simp only: take_bit_eq_mask [symmetric] take_bit_eq_mod)
  then show ?thesis by (simp only: m)
qed

lemma upper_lower_char: "upper_char (lower_char c) = upper_char c"
  by (simp add: upper_char_def lower_char_def ascii_lowercase_def ascii_uppercase_def)

lemma lower_upper_char: "lower_char (upper_char c) = lower_char c"
  by (simp add: upper_char_def lower_char_def ascii_lowercase_def ascii_uppercase_def)

lemma upper_lower: "upper (lower s) = upper s"
  by (simp add: upper_def lower_def upper_lower_char)

lemma lower_upper: "lower (upper s) = lower s"
  by (simp add: upper_def lower_def lower_upper_char)

lemma same_case_upper: "lower s = lower t \<Longrightarrow> upper s = upper t"
  by (metis upper_lower)

lemma digit_char: "n < 10 \<Longrightarrow> ''0123456789'' ! n \<in> set ''0123456789''"
proof -
  assume "n < 10"
  then have "n < length ''0123456789''" by simp
  then show ?thesis by (rule nth_mem)
qed

lemma str_nat_digits: "set (str_nat n) \<subseteq> set ''0123456789''"
proof (induction n rule: str_nat.induct)
  case (1 n)
  show ?case
  proof (cases "n < 10")
    case True
    then have "str_nat n = [''0123456789'' ! n]" by (subst str_nat.simps) simp
    with digit_char [OF True] show ?thesis by simp
  next
    case False
    then have e: "str_nat n = str_nat (n div 10) @ [''0123456789'' ! (n mod 10)]"
      by (subst str_nat.simps) simp
    have "''0123456789'' ! (n mod 10) \<in> set ''0123456789''" by (rule digit_char) simp
    with "1.IH" [OF False] e show ?thesis by simp
  qed
qed

lemma str_digits: "0 \<le> i \<Longrightarrow> set (str i) \<subseteq> set ''0123456789''"
  using str_nat_digits [of "nat i"] by (simp add: str_def)

lemma hex_char: "n < 16 \<Longrightarrow> ''0123456789abcdef'' ! n \<in> set ''0123456789abcdef''"
proof -
  assume "n < 16"
  then have "n < length ''0123456789abcdef''" by simp
  then show ?thesis by (rule nth_mem)
qed

lemma hex_byte_chars: "set (hex_byte b) \<subseteq> set ''0123456789abcdef''"
proof -
  have "unat b < 2 ^ LENGTH(8)" by (rule unsigned_less)
  then have "unat b < 256" by simp
  then have "unat b div 16 < 16" by simp
  then have 1: "''0123456789abcdef'' ! (unat b div 16) \<in> set ''0123456789abcdef''" by (rule hex_char)
  have 2: "''0123456789abcdef'' ! (unat b mod 16) \<in> set ''0123456789abcdef''" by (rule hex_char) simp
  from 1 2 show ?thesis unfolding hex_byte_def by simp
qed

lemma hexdigest_chars: "set (hexdigest bs) \<subseteq> set ''0123456789abcdef''"
  unfolding hexdigest_def using hex_byte_chars by (induction bs) auto

lemma hexdigest_length: "length (hexdigest bs) = 2 * length bs"
  unfolding hexdigest_def by (induction bs) (simp_all add: hex_byte_def)

lemma compute_crc32:
  "upper alg = ''CRC32'' \<Longrightarrow> content f = Some bs \<Longrightarrow>
   compute_file_hash ex f alg =
     Inr (str (foldl (\<lambda>v chunk. zlib_crc32 ex chunk v) 0 (read_chunks 4096 bs) mod 2 ^ 32))"
  by (simp add: compute_file_hash_def mask32 del: foldl_append)

lemma compute_hashlib:
  "upper alg \<noteq> ''CRC32'' \<Longrightarrow> hashlib_new ex (lower alg) = Some (Fixed_size dg) \<Longrightarrow>
   content f = Some bs \<Longrightarrow> compute_file_hash ex f alg = Inr (hexdigest (dg bs))"
  by (simp add: compute_file_hash_def read_chunks_concat)

lemma compute_unsupported:
  "(compute_file_hash ex f alg = Inl (ValueError m)) =
     (m = alg \<and> upper alg \<noteq> ''CRC32'' \<and> hashlib_new ex (lower alg) = None)"
  by (auto simp: compute_file_hash_def Let_def split: option.splits hash_object.splits)

lemma compute_same_case:
  "lower alg' = lower alg \<Longrightarrow> compute_file_hash ex f alg = Inr d \<Longrightarrow> compute_file_hash ex f alg' = Inr d"
proof -
  assume l: "lower alg' = lower alg" and r: "compute_file_hash ex f alg = Inr d"
  from l have u: "upper alg' = upper alg" by (rule same_case_upper)
  from r show ?thesis
    by (auto simp: compute_file_hash_def Let_def u l split: option.splits if_splits hash_object.splits)
qed

text \<open>
  C9. The CRC32 digest of an empty file is the decimal string \<open>0\<close>, for the algorithm
  name in any letter case and whatever \<^verbatim>\<open>zlib.crc32\<close> computes.
\<close>

theorem crc32_of_empty_file:
  "content f = Some [] \<Longrightarrow> upper alg = ''CRC32'' \<Longrightarrow> compute_file_hash ex f alg = Inr ''0''"
  by (simp add: compute_file_hash_def read_chunks.simps str_def str_nat.simps)

theorem crc32_of_empty_file_witness:
  "compute_file_hash example_externals \<lparr>name = ''empty.bin'', is_file = True, in_target = False, content = Some []\<rparr>
     ''CRC32'' = Inr ''0''"
  using crc32_of_empty_file
    [of "\<lparr>name = ''empty.bin'', is_file = True, in_target = False, content = Some []\<rparr>" "''CRC32''" example_externals]
  by (simp add: upper_def upper_char_def ascii_lowercase_def ascii_uppercase_def)

text \<open>
  C6. For a readable file, \<open>compute_file_hash\<close> renders CRC32 as the checksum reduced
  to 32 bits, a number from 0 to \<open>2^32 - 1\<close>, written with decimal digits only; for every
  other name for which \<^verbatim>\<open>hashlib.new\<close> gives a hash object of fixed digest size it
  renders the digest of the whole content with the digits \<open>0-9a-f\<close>, two for each byte; and two names that differ in letter
  case only yield the same digest string.
\<close>

theorem digest_rendering:
  assumes "content f = Some bs"
  shows "(upper alg = ''CRC32'' \<longrightarrow>
           (\<exists>v. v = foldl (\<lambda>v chunk. zlib_crc32 ex chunk v) 0 (read_chunks 4096 bs) mod 2 ^ 32 \<and>
                0 \<le> v \<and> v < 2 ^ 32 \<and>
                compute_file_hash ex f alg = Inr (str v) \<and>
                set (str v) \<subseteq> set ''0123456789'')) \<and>
         (upper alg \<noteq> ''CRC32'' \<longrightarrow>
           (\<forall>dg. hashlib_new ex (lower alg) = Some (Fixed_size dg) \<longrightarrow>
                compute_file_hash ex f alg = Inr (hexdigest (dg bs)) \<and>
                set (hexdigest (dg bs)) \<subseteq> set ''0123456789abcdef'' \<and>
                length (hexdigest (dg bs)) = 2 * length (dg bs))) \<and>
         (\<forall>alg' d. lower alg' = lower alg \<longrightarrow> compute_file_hash ex f alg = Inr d \<longrightarrow>
                compute_file_hash ex f alg' = Inr d)"
proof (intro conjI impI allI)
  assume u: "upper alg = ''CRC32''"
  define v where "v = foldl (\<lambda>v chunk. zlib_crc32 ex chunk v) 0 (read_chunks 4096 bs) mod 2 ^ 32"
  have nonneg: "0 \<le> v" and below: "v < 2 ^ 32" by (simp_all add: v_def)
  have "compute_file_hash ex f alg = Inr (str v)"
    unfolding v_def using u assms by (rule compute_crc32)
  moreover have "set (str v) \<subseteq> set ''0123456789''" using nonneg by (rule str_digits)
  ultimately show "\<exists>v. v = foldl (\<lambda>v chunk. zlib_crc32 ex chunk v) 0 (read_chunks 4096 bs) mod 2 ^ 32 \<and>
      0 \<le> v \<and> v < 2 ^ 32 \<and> compute_file_hash ex f alg = Inr (str v) \<and>
      set (str v) \<subseteq> set ''0123456789''"
    using nonneg below v_def by blast
next
  fix dg
  assume "upper alg \<noteq> ''CRC32''" and "hashlib_new ex (lower alg) = Some (Fixed_size dg)"
  then show "compute_file_hash ex f alg = Inr (hexdigest (dg bs))"
    using assms by (rule compute_hashlib)
next
  fix dg
  show "set (hexdigest (dg bs)) \<subseteq> set ''0123456789abcdef''" by (rule hexdigest_chars)
next
  fix dg
  show "length (hexdigest (dg bs)) = 2 * length (dg bs)" by (rule hexdigest_length)
next
  fix alg' d
  assume "lower alg' = lower alg" and "compute_file_hash ex f alg = Inr d"
  then show "compute_file_hash ex f alg' = Inr d" by (rule compute_same_case)
qed

theorem digest_rendering_witness:
  "compute_file_hash example_externals
     \<lparr>name = ''a.txt'', is_file = True, in_target = False, content = Some [0xd4, 0x1d, 0xa0]\<rparr> ''crc32'' = Inr ''401'' \<and>
   compute_file_hash example_externals
     \<lparr>name = ''a.txt'', is_file = True, in_target = False, content = Some [0xd4, 0x1d, 0xa0]\<rparr> ''Md5'' = Inr ''d41da0'' \<and>
   compute_file_hash example_externals
     \<lparr>name = ''a.txt'', is_file = True, in_target = False, content = Some [0xd4, 0x1d, 0xa0]\<rparr> ''MD5'' = Inr ''d41da0''"
proof -
  let ?f = "\<lparr>name = ''a.txt'', is_file = True, in_target = False, content = Some [0xd4, 0x1d, 0xa0 :: byte]\<rparr>"
  have c: "content ?f = Some [0xd4, 0x1d, 0xa0]" by simp
  have u1: "upper ''crc32'' = ''CRC32''"
    by (simp add: upper_def upper_char_def ascii_lowercase_def ascii_uppercase_def)
  have u2: "upper ''Md5'' \<noteq> ''CRC32''"
    by (simp add: upper_def upper_char_def ascii_lowercase_def ascii_uppercase_def)
  have l2: "lower ''Md5'' = ''md5''" and l3: "lower ''MD5'' = lower ''Md5''"
    by (simp_all add: lower_def lower_char_def ascii_lowercase_def ascii_uppercase_def)
  have h: "hashlib_new example_externals (lower ''Md5'') = Some (Fixed_size (\<lambda>bs. bs))"
    by (simp add: l2 example_externals_def algorithms_guaranteed_def)
  have ch: "read_chunks 4096 [0xd4, 0x1d, 0xa0 :: byte] = [[0xd4, 0x1d, 0xa0]]"
    by (simp add: read_chunks.simps)
  note t = digest_rendering [OF c, of "''crc32''" example_externals]
  note t' = digest_rendering [OF c, of "''Md5''" example_externals]
  from t u1 have 1: "compute_file_hash example_externals ?f ''crc32'' = Inr ''401''"
    by (simp add: ch example_externals_def str_def str_nat.simps)
  from t' u2 h have 2: "compute_file_hash example_externals ?f ''Md5'' = Inr ''d41da0''"
    by (simp add: hexdigest_def hex_byte_def)
  from t' l3 2 have 3: "compute_file_hash example_externals ?f ''MD5'' = Inr ''d41da0''"
    by blast
  from 1 2 3 show ?thesis by blast
qed

lemma upper_listed_lower:
  "upper alg = u \<Longrightarrow> lower alg = lower u"
  using lower_upper [of alg] by simp

lemma compute_type_error:
  "content f \<noteq> None \<Longrightarrow>
   (compute_file_hash ex f alg = Inl TypeError) =
     (upper alg \<noteq> ''CRC32'' \<and> hashlib_new ex (lower alg) = Some Extendable)"
  by (auto simp: compute_file_hash_def Let_def split: option.splits hash_object.splits)

lemma compute_succeeds:
  "content f \<noteq> None \<Longrightarrow>
   (\<exists>d. compute_file_hash ex f alg = Inr d) =
     (upper alg = ''CRC32'' \<or> (\<exists>dg. hashlib_new ex (lower alg) = Some (Fixed_size dg)))"
  by (auto simp: compute_file_hash_def Let_def split: option.splits hash_object.splits)

lemma example_provides_guaranteed: "provides_guaranteed example_externals"
  by (simp add: provides_guaranteed_def example_externals_def algorithms_guaranteed_def
      extendable_guaranteed_def)

text \<open>
  C3, as stated, fails. With a \<^verbatim>\<open>hashlib\<close> that provides its guaranteed algorithms,
  the name \<open>SHA1\<close> is outside the listed set and is hashed without an error: the script
  has no list of its own and hands every name but CRC32 to \<^verbatim>\<open>hashlib.new\<close>.
\<close>

theorem unsupported_iff_unlisted_counterexample:
  "\<not> (\<forall>ex f alg. provides_guaranteed ex \<longrightarrow> content f \<noteq> None \<longrightarrow>
        ((\<exists>m. compute_file_hash ex f alg = Inl (ValueError m)) \<longleftrightarrow>
         upper alg \<notin> set supported_algorithms))"
proof
  assume a: "\<forall>ex f alg. provides_guaranteed ex \<longrightarrow> content f \<noteq> None \<longrightarrow>
        ((\<exists>m. compute_file_hash ex f alg = Inl (ValueError m)) \<longleftrightarrow>
         upper alg \<notin> set supported_algorithms)"
  let ?f = "\<lparr>name = ''a.txt'', is_file = True, in_target = False, content = Some []\<rparr>"
  have u: "upper ''SHA1'' \<notin> set supported_algorithms"
    by (simp add: supported_algorithms_def upper_def upper_char_def ascii_lowercase_def
        ascii_uppercase_def)
  have c: "compute_file_hash example_externals ?f ''SHA1'' = Inr []"
    by (simp add: compute_file_hash_def example_externals_def algorithms_guaranteed_def
        read_chunks.simps hexdigest_def upper_def upper_char_def lower_def lower_char_def
        ascii_lowercase_def ascii_uppercase_def)
  from a example_provides_guaranteed
  have "(\<exists>m. compute_file_hash example_externals ?f ''SHA1'' = Inl (ValueError m)) \<longleftrightarrow>
      upper ''SHA1'' \<notin> set supported_algorithms"
    by simp
  with u c show False by simp
qed

text \<open>
  C3, amended. \<open>compute_file_hash\<close> raises the \<^verbatim>\<open>ValueError\<close> of an unsupported
  algorithm exactly when the name is not CRC32 in some letter case and
  \<^verbatim>\<open>hashlib.new\<close> rejects its lower-case form, and the message carries the name as
  given. On a readable file it returns a digest exactly when the name is CRC32 or
  \<^verbatim>\<open>hashlib.new\<close> gives a hash object of fixed digest size, and it raises the
  \<^verbatim>\<open>TypeError\<close> of \<^verbatim>\<open>hexdigest()\<close>, not the error of an unsupported algorithm,
  exactly when \<^verbatim>\<open>hashlib.new\<close> gives a hash object of extendable output. With the
  guaranteed algorithms of \<^verbatim>\<open>hashlib\<close> the names CRC32, MD5, SHA256, SHA384, SHA512
  and also SHA1 succeed in any letter case, and SHAKE_128 and SHAKE_256 raise
  \<^verbatim>\<open>TypeError\<close>.
\<close>

theorem unsupported_iff_hashlib_rejects:
  "((\<exists>m. compute_file_hash ex f alg = Inl (ValueError m)) \<longleftrightarrow>
      upper alg \<noteq> ''CRC32'' \<and> hashlib_new ex (lower alg) = None) \<and>
   (\<forall>m. compute_file_hash ex f alg = Inl (ValueError m) \<longrightarrow> m = alg) \<and>
   (content f \<noteq> None \<longrightarrow>
      ((\<exists>d. compute_file_hash ex f alg = Inr d) \<longleftrightarrow>
         upper alg = ''CRC32'' \<or> (\<exists>dg. hashlib_new ex (lower alg) = Some (Fixed_size dg))) \<and>
      (compute_file_hash ex f alg = Inl TypeError \<longleftrightarrow>
         upper alg \<noteq> ''CRC32'' \<and> hashlib_new ex (lower alg) = Some Extendable)) \<and>
   (content f \<noteq> None \<and> provides_guaranteed ex \<longrightarrow>
      (upper alg \<in> {''CRC32'', ''MD5'', ''SHA256'', ''SHA384'', ''SHA512'', ''SHA1''} \<longrightarrow>
         (\<exists>d. compute_file_hash ex f alg = Inr d)) \<and>
      (upper alg \<in> {''SHAKE_128'', ''SHAKE_256''} \<longrightarrow>
         compute_file_hash ex f alg = Inl TypeError))"
proof (intro conjI allI impI)
  show "(\<exists>m. compute_file_hash ex f alg = Inl (ValueError m)) \<longleftrightarrow>
      upper alg \<noteq> ''CRC32'' \<and> hashlib_new ex (lower alg) = None"
    by (simp add: compute_unsupported)
next
  fix m
  assume "compute_file_hash ex f alg = Inl (ValueError m)"
  then show "m = alg" by (simp add: compute_unsupported)
next
  assume "content f \<noteq> None"
  then show "(\<exists>d. compute_file_hash ex f alg = Inr d) \<longleftrightarrow>
         upper alg = ''CRC32'' \<or> (\<exists>dg. hashlib_new ex (lower alg) = Some (Fixed_size dg))"
    by (rule compute_succeeds)
next
  assume "content f \<noteq> None"
  then show "compute_file_hash ex f alg = Inl TypeError \<longleftrightarrow>
         upper alg \<noteq> ''CRC32'' \<and> hashlib_new ex (lower alg) = Some Extendable"
    by (rule compute_type_error)
next
  assume a: "content f \<noteq> None \<and> provides_guaranteed ex"
    and u: "upper alg \<in> {''CRC32'', ''MD5'', ''SHA256'', ''SHA384'', ''SHA512'', ''SHA1''}"
  from a have g: "list_all (\<lambda>n. case hashlib_new ex n of Some (Fixed_size digest) \<Rightarrow> True | _ \<Rightarrow> False)
      algorithms_guaranteed"
    by (simp add: provides_guaranteed_def)
  have low: "lower ''MD5'' = ''md5''" "lower ''SHA256'' = ''sha256''"
    "lower ''SHA384'' = ''sha384''" "lower ''SHA512'' = ''sha512''" "lower ''SHA1'' = ''sha1''"
    by (simp_all add: lower_def lower_char_def ascii_lowercase_def ascii_uppercase_def)
  from u consider "upper alg = ''CRC32''"
    | "lower alg \<in> {''md5'', ''sha256'', ''sha384'', ''sha512'', ''sha1''}"
    using upper_listed_lower [of alg] low by auto
  then have "upper alg = ''CRC32'' \<or> (\<exists>dg. hashlib_new ex (lower alg) = Some (Fixed_size dg))"
  proof cases
    case 1
    then show ?thesis by simp
  next
    case 2
    with g show ?thesis
      by (auto simp: algorithms_guaranteed_def split: option.splits hash_object.splits)
  qed
  with a show "\<exists>d. compute_file_hash ex f alg = Inr d" by (simp add: compute_succeeds)
next
  assume a: "content f \<noteq> None \<and> provides_guaranteed ex"
    and u: "upper alg \<in> {''SHAKE_128'', ''SHAKE_256''}"
  from a have g: "list_all (\<lambda>n. hashlib_new ex n = Some Extendable) extendable_guaranteed"
    by (simp add: provides_guaranteed_def)
  have low: "lower ''SHAKE_128'' = ''shake_128''" "lower ''SHAKE_256'' = ''shake_256''"
    by (simp_all add: lower_def lower_char_def ascii_lowercase_def ascii_uppercase_def)
  from u have l: "lower alg \<in> {''shake_128'', ''shake_256''}"
    using upper_listed_lower [of alg] low by auto
  with g have "hashlib_new ex (lower alg) = Some Extendable"
    by (auto simp: extendable_guaranteed_def)
  moreover from u have "upper alg \<noteq> ''CRC32''" by auto
  ultimately show "compute_file_hash ex f alg = Inl TypeError"
    using a by (simp add: compute_type_error)
qed

theorem unsupported_iff_hashlib_rejects_witness:
  "compute_file_hash example_externals
     \<lparr>name = ''a.txt'', is_file = True, in_target = False, content = Some []\<rparr> ''MD2''
     = Inl (ValueError ''MD2'') \<and>
   (\<exists>d. compute_file_hash example_externals
     \<lparr>name = ''a.txt'', is_file = True, in_target = False, content = Some []\<rparr> ''Sha256'' = Inr d) \<and>
   (\<exists>d. compute_file_hash example_externals
     \<lparr>name = ''a.txt'', is_file = True, in_target = False, content = Some []\<rparr> ''SHA1'' = Inr d) \<and>
   compute_file_hash example_externals
     \<lparr>name = ''a.txt'', is_file = True, in_target = False, content = Some []\<rparr> ''shake_128''
     = Inl TypeError"
proof -
  let ?f = "\<lparr>name = ''a.txt'', is_file = True, in_target = False, content = Some ([] :: byte list)\<rparr>"
  note g = example_provides_guaranteed
  have c: "content ?f \<noteq> None" by simp
  have u: "upper ''MD2'' \<noteq> ''CRC32''" "upper ''Sha256'' = ''SHA256''" "upper ''SHA1'' = ''SHA1''"
    "upper ''shake_128'' = ''SHAKE_128''"
    by (simp_all add: upper_def upper_char_def ascii_lowercase_def ascii_uppercase_def)
  have l: "lower ''MD2'' = ''md2''"
    by (simp_all add: lower_def lower_char_def ascii_lowercase_def ascii_uppercase_def)
  have h: "hashlib_new example_externals ''md2'' = None"
    by (simp_all add: example_externals_def algorithms_guaranteed_def extendable_guaranteed_def)
  from unsupported_iff_hashlib_rejects [of example_externals ?f "''MD2''"] u(1) l h
  have 1: "compute_file_hash example_externals ?f ''MD2'' = Inl (ValueError ''MD2'')"
    by auto
  from unsupported_iff_hashlib_rejects
      [of example_externals ?f "''Sha256''", THEN conjunct2, THEN conjunct2, THEN conjunct2] g c u(2)
  have 2: "\<exists>d. compute_file_hash example_externals ?f ''Sha256'' = Inr d"
    by simp
  from unsupported_iff_hashlib_rejects
      [of example_externals ?f "''SHA1''", THEN conjunct2, THEN conjunct2, THEN conjunct2] g c u(3)
  have 3: "\<exists>d. compute_file_hash example_externals ?f ''SHA1'' = Inr d"
    by simp
  from unsupported_iff_hashlib_rejects
      [of example_externals ?f "''shake_128''", THEN conjunct2, THEN conjunct2, THEN conjunct2] g c u(4)
  have 4: "compute_file_hash example_externals ?f ''shake_128'' = Inl TypeError"
    by simp
  from 1 2 3 4 show ?thesis by blast
qed

section \<open>Properties of the prefix loop\<close>

lemma get_unique_path_total: "\<exists>p. get_unique_path D fn = Some p \<and> p |\<notin>| D"
  using get_unique_path_least [of D fn] by blast

lemma probe_prefix_find:
  "dest_path (probe_prefix D h nm p) =
     (case List.find (\<lambda>q. take q h @ ''_'' @ nm |\<notin>| D) [p ..< Suc (max p (length h))] of
        Some q \<Rightarrow> Some (take q h @ ''_'' @ nm)
      | None \<Rightarrow> get_unique_path D (h @ ''_'' @ nm))"
proof (induction D h nm p rule: probe_prefix.induct)
  case (1 D h nm p)
  have upt: "[p ..< Suc (max p (length h))] = p # [Suc p ..< Suc (max p (length h))]"
    by (rule upt_conv_Cons) simp
  show ?case
  proof (cases "take p h @ ''_'' @ nm |\<notin>| D")
    case True
    then show ?thesis by (subst probe_prefix.simps) (simp add: upt del: upt_Suc)
  next
    case False
    show ?thesis
    proof (cases "length h \<le> p")
      case True
      then have "max p (length h) = p" by simp
      with False True show ?thesis by (subst probe_prefix.simps) simp
    next
      case nle: False
      then have u: "[p ..< Suc (length h)] = p # [Suc p ..< Suc (length h)]"
        by (intro upt_conv_Cons) simp
      from False nle "1.IH" show ?thesis
        by (subst probe_prefix.simps) (simp add: u Let_def del: upt_Suc)
    qed
  qed
qed

lemma probe_prefix_total: "\<exists>d. dest_path (probe_prefix D h nm p) = Some d \<and> d |\<notin>| D"
proof (induction D h nm p rule: probe_prefix.induct)
  case (1 D h nm p)
  show ?case
  proof (cases "take p h @ ''_'' @ nm |\<notin>| D")
    case True
    then show ?thesis by (subst probe_prefix.simps) simp
  next
    case False
    show ?thesis
    proof (cases "length h \<le> p")
      case True
      with False get_unique_path_total [of D "take p h @ ''_'' @ nm"] show ?thesis
        by (subst probe_prefix.simps) simp
    next
      case nle: False
      with False "1.IH" show ?thesis
        by (subst probe_prefix.simps) (simp add: Let_def)
    qed
  qed
qed

lemma probe_prefix_lens:
  "lens (probe_prefix D h nm p) = [p ..< p + length (lens (probe_prefix D h nm p))] \<and>
   lens (probe_prefix D h nm p) \<noteq> [] \<and>
   (\<forall>q\<in>set (lens (probe_prefix D h nm p)). p \<le> q \<and> q \<le> max p (length h)) \<and>
   (fell_back (probe_prefix D h nm p) \<longrightarrow> last (lens (probe_prefix D h nm p)) = max p (length h))"
proof (induction D h nm p rule: probe_prefix.induct)
  case (1 D h nm p)
  show ?case
  proof (cases "take p h @ ''_'' @ nm |\<notin>| D")
    case True
    then have "probe_prefix D h nm p = \<lparr>lens = [p], fell_back = False,
        dest_path = Some (take p h @ ''_'' @ nm)\<rparr>"
      by (subst probe_prefix.simps) simp
    then show ?thesis by simp
  next
    case False
    show ?thesis
    proof (cases "length h \<le> p")
      case True
      with False have "probe_prefix D h nm p = \<lparr>lens = [p], fell_back = True,
          dest_path = get_unique_path D (take p h @ ''_'' @ nm)\<rparr>"
        by (subst probe_prefix.simps) simp
      with True show ?thesis by simp
    next
      case nle: False
      let ?r = "probe_prefix D h nm (p + 1)"
      from "1.IH" [OF False nle] have
        a: "lens ?r = [p + 1 ..< p + 1 + length (lens ?r)]" and b: "lens ?r \<noteq> []" and
        c: "\<forall>q\<in>set (lens ?r). p + 1 \<le> q \<and> q \<le> max (p + 1) (length h)" and
        d: "fell_back ?r \<longrightarrow> last (lens ?r) = max (p + 1) (length h)"
        by blast+
      have e: "probe_prefix D h nm p = ?r\<lparr>lens := p # lens ?r\<rparr>"
        using False nle by (subst probe_prefix.simps) (simp add: Let_def)
      have m: "max (p + 1) (length h) = max p (length h)" using nle by simp
      have 1: "lens (probe_prefix D h nm p) = [p ..< p + length (lens (probe_prefix D h nm p))]"
      proof -
        have "[p ..< p + Suc (length (lens ?r))] = p # [Suc p ..< p + Suc (length (lens ?r))]"
          by (rule upt_conv_Cons) simp
        moreover from a have "lens ?r = [Suc p ..< p + Suc (length (lens ?r))]" by simp
        ultimately show ?thesis by (simp add: e)
      qed
      have 3: "\<forall>q\<in>set (lens (probe_prefix D h nm p)). p \<le> q \<and> q \<le> max p (length h)"
        using c m by (auto simp: e)
      have 4: "fell_back (probe_prefix D h nm p) \<longrightarrow> last (lens (probe_prefix D h nm p)) = max p (length h)"
        using d b m by (simp add: e)
      from 1 3 4 show ?thesis by (simp add: e)
    qed
  qed
qed

lemma probe_prefix_beyond: "length h \<le> p \<Longrightarrow> lens (probe_prefix D h nm p) = [p]"
  by (subst probe_prefix.simps) simp

text \<open>
  C2. In Mode B (\<open>prefix_length \<noteq> 0\<close>), for a file whose digest was computed, the
  destination is the one the specification describes: with \<open>p = |L|\<close>, the first name
  \<open>digest[0:q] + "_" + name\<close>, for \<open>q\<close> from \<open>p\<close> up to the digest length, that the
  target directory does not hold, and, when all of them are held, the result of the
  numeric-suffix scheme on the name prefixed with the full digest. A destination is
  always produced.
\<close>

theorem mode_b_naming:
  assumes "prefix_length a \<noteq> 0" and "compute_file_hash ex f (algorithm a) = Inr digest"
  shows "choose_dest ex a D f = map_option Inr (mode_b_spec D digest (name f) (prefix_length a)) \<and>
         (\<exists>d. choose_dest ex a D f = Some (Inr d))"
proof -
  have "choose_dest ex a D f =
      map_option Inr (dest_path (probe_prefix D digest (name f) (nat \<bar>prefix_length a\<bar>)))"
    using assms by (simp add: choose_dest_def)
  moreover have "dest_path (probe_prefix D digest (name f) (nat \<bar>prefix_length a\<bar>)) =
      mode_b_spec D digest (name f) (prefix_length a)"
    by (simp add: mode_b_spec_def probe_prefix_find Let_def del: upt_Suc)
  moreover obtain d where "dest_path (probe_prefix D digest (name f) (nat \<bar>prefix_length a\<bar>)) = Some d"
    using probe_prefix_total by blast
  ultimately show ?thesis by (metis option.simps(9))
qed

theorem mode_b_naming_witness:
  "choose_dest example_externals
     \<lparr>move = False, prefix_length = 4, extension = ''.txt'', case_sensitive = False, algorithm = ''MD5''\<rparr>
     {||} \<lparr>name = ''a.txt'', is_file = True, in_target = False, content = Some [0xd4, 0x1d, 0xa0]\<rparr>
     = Some (Inr ''d41d_a.txt'') \<and>
   choose_dest example_externals
     \<lparr>move = False, prefix_length = 4, extension = ''.txt'', case_sensitive = False, algorithm = ''MD5''\<rparr>
     {|''d41d_a.txt''|} \<lparr>name = ''a.txt'', is_file = True, in_target = False, content = Some [0xd4, 0x1d, 0xa0]\<rparr>
     = Some (Inr ''d41da_a.txt'') \<and>
   choose_dest example_externals
     \<lparr>move = False, prefix_length = - 5, extension = ''.txt'', case_sensitive = False, algorithm = ''MD5''\<rparr>
     {|''d41da_a.txt'', ''d41da0_a.txt''|} \<lparr>name = ''a.txt'', is_file = True, in_target = False, content = Some [0xd4, 0x1d, 0xa0]\<rparr>
     = Some (Inr ''d41da0_a_1.txt'')"
proof -
  let ?f = "\<lparr>name = ''a.txt'', is_file = True, in_target = False, content = Some [0xd4, 0x1d, 0xa0 :: byte]\<rparr>"
  let ?a = "\<lambda>L. \<lparr>move = False, prefix_length = L, extension = ''.txt'', case_sensitive = False,
    algorithm = ''MD5''\<rparr>"
  have h: "compute_file_hash example_externals ?f ''MD5'' = Inr ''d41da0''"
    by (simp add: compute_file_hash_def example_externals_def algorithms_guaranteed_def
        read_chunks.simps hexdigest_def hex_byte_def upper_def upper_char_def lower_def
        lower_char_def ascii_lowercase_def ascii_uppercase_def)
  have g: "get_unique_path {|''d41da_a.txt'', ''d41da0_a.txt''|} ''d41da0_a.txt'' = Some ''d41da0_a_1.txt''"
    by (simp add: get_unique_path_def splitext_def unique_loop.simps str_def str_nat.simps upt_rec)
  have 1: "choose_dest example_externals (?a 4) {||} ?f = Some (Inr ''d41d_a.txt'')"
    using mode_b_naming [of "?a 4" example_externals ?f "''d41da0''" "{||}"] h
    by (simp add: mode_b_spec_def upt_rec)
  have 2: "choose_dest example_externals (?a 4) {|''d41d_a.txt''|} ?f = Some (Inr ''d41da_a.txt'')"
    using mode_b_naming [of "?a 4" example_externals ?f "''d41da0''" "{|''d41d_a.txt''|}"] h
    by (simp add: mode_b_spec_def upt_rec)
  have 3: "choose_dest example_externals (?a (- 5)) {|''d41da_a.txt'', ''d41da0_a.txt''|} ?f =
      Some (Inr ''d41da0_a_1.txt'')"
    using mode_b_naming [of "?a (- 5)" example_externals ?f "''d41da0''"
        "{|''d41da_a.txt'', ''d41da0_a.txt''|}"] h g
    by (simp add: mode_b_spec_def upt_rec)
  from 1 2 3 show ?thesis by blast
qed

text \<open>
  C4, as stated, fails: the prefix length starts at \<open>|L|\<close> whatever the length of the
  digest. With \<^verbatim>\<open>-P 5\<close> and the CRC32 digest \<open>0\<close> of an empty file, the tracked
  prefix length is 5, beyond the digest length 1; the slice then is the whole digest.
\<close>

theorem prefix_length_within_digest_counterexample:
  "compute_file_hash example_externals \<lparr>name = ''a.txt'', is_file = True, in_target = False, content = Some []\<rparr> ''CRC32''
     = Inr ''0'' \<and>
   lens (probe_prefix {||} ''0'' ''a.txt'' (nat \<bar>5\<bar>)) = [5] \<and>
   \<not> (5 :: nat) \<le> length ''0''"
  by (simp add: compute_file_hash_def read_chunks.simps str_def str_nat.simps upper_def
      upper_char_def ascii_lowercase_def ascii_uppercase_def probe_prefix.simps)

text \<open>
  C4, amended. For every configured \<open>L \<noteq> 0\<close> and every digest, the values of the
  prefix length are \<open>|L|, |L| + 1, ...\<close> without a gap: it starts at \<open>|L| \<ge> 1\<close>, grows by
  one at each collision and never shrinks. It never exceeds the larger of \<open>|L|\<close> and the
  digest length, which is its value when the loop falls back to numeric suffixing. So
  it stays in \<open>[1, len(digest)]\<close> whenever \<open>|L|\<close> is at most the digest length, and stays
  at \<open>|L|\<close> when \<open>|L|\<close> is larger.
\<close>

theorem prefix_length_bounds:
  assumes "L \<noteq> 0"
  shows "lens (probe_prefix D h nm (nat \<bar>L\<bar>)) =
           [nat \<bar>L\<bar> ..< nat \<bar>L\<bar> + length (lens (probe_prefix D h nm (nat \<bar>L\<bar>)))] \<and>
         lens (probe_prefix D h nm (nat \<bar>L\<bar>)) \<noteq> [] \<and>
         (\<forall>q\<in>set (lens (probe_prefix D h nm (nat \<bar>L\<bar>))). 1 \<le> q \<and> q \<le> max (nat \<bar>L\<bar>) (length h)) \<and>
         (fell_back (probe_prefix D h nm (nat \<bar>L\<bar>)) \<longrightarrow>
            last (lens (probe_prefix D h nm (nat \<bar>L\<bar>))) = max (nat \<bar>L\<bar>) (length h)) \<and>
         (nat \<bar>L\<bar> \<le> length h \<longrightarrow>
            (\<forall>q\<in>set (lens (probe_prefix D h nm (nat \<bar>L\<bar>))). 1 \<le> q \<and> q \<le> length h)) \<and>
         (length h < nat \<bar>L\<bar> \<longrightarrow> lens (probe_prefix D h nm (nat \<bar>L\<bar>)) = [nat \<bar>L\<bar>])"
proof -
  let ?p = "nat \<bar>L\<bar>"
  let ?r = "probe_prefix D h nm ?p"
  from assms have p: "1 \<le> ?p" by simp
  from probe_prefix_lens [of D h nm ?p] have
    a: "lens ?r = [?p ..< ?p + length (lens ?r)]" and b: "lens ?r \<noteq> []" and
    c: "\<forall>q\<in>set (lens ?r). ?p \<le> q \<and> q \<le> max ?p (length h)" and
    d: "fell_back ?r \<longrightarrow> last (lens ?r) = max ?p (length h)"
    by blast+
  from c p have c1: "\<forall>q\<in>set (lens ?r). 1 \<le> q \<and> q \<le> max ?p (length h)" by fastforce
  have c2: "?p \<le> length h \<longrightarrow> (\<forall>q\<in>set (lens ?r). 1 \<le> q \<and> q \<le> length h)"
  proof
    assume "?p \<le> length h"
    then have "max ?p (length h) = length h" by simp
    with c1 show "\<forall>q\<in>set (lens ?r). 1 \<le> q \<and> q \<le> length h" by simp
  qed
  have e: "length h < ?p \<longrightarrow> lens ?r = [?p]" by (simp add: probe_prefix_beyond)
  from a b c1 d c2 e show ?thesis by blast
qed

theorem prefix_length_bounds_witness:
  "lens (probe_prefix {|''d41d_a.txt''|} ''d41da0'' ''a.txt'' (nat \<bar>- 4\<bar>)) = [4, 5] \<and>
   lens (probe_prefix {|''d41d_a.txt''|} ''d41da0'' ''a.txt'' (nat \<bar>- 4\<bar>)) =
     [nat \<bar>- 4\<bar> ..< nat \<bar>- 4\<bar> + length (lens (probe_prefix {|''d41d_a.txt''|} ''d41da0'' ''a.txt'' (nat \<bar>- 4\<bar>)))] \<and>
   list_all (\<lambda>q. 1 \<le> q \<and> q \<le> length ''d41da0'')
     (lens (probe_prefix {|''d41d_a.txt''|} ''d41da0'' ''a.txt'' (nat \<bar>- 4\<bar>)))"
proof -
  have n: "(- 4 :: int) \<noteq> 0" by simp
  have v: "lens (probe_prefix {|''d41d_a.txt''|} ''d41da0'' ''a.txt'' (nat \<bar>- 4\<bar>)) = [4, 5]"
    by (simp add: probe_prefix.simps)
  have l: "nat \<bar>- 4\<bar> \<le> length ''d41da0''" by simp
  from prefix_length_bounds [OF n, of "{|''d41d_a.txt''|}" "''d41da0''" "''a.txt''"] l
  have "lens (probe_prefix {|''d41d_a.txt''|} ''d41da0'' ''a.txt'' (nat \<bar>- 4\<bar>)) =
     [nat \<bar>- 4\<bar> ..< nat \<bar>- 4\<bar> + length (lens (probe_prefix {|''d41d_a.txt''|} ''d41da0'' ''a.txt'' (nat \<bar>- 4\<bar>)))]"
    and "\<forall>q\<in>set (lens (probe_prefix {|''d41d_a.txt''|} ''d41da0'' ''a.txt'' (nat \<bar>- 4\<bar>))).
       1 \<le> q \<and> q \<le> length ''d41da0''"
    by blast+
  with v show ?thesis by (simp only: list_all_iff)
qed

text \<open>
  C5. In Mode A (\<open>prefix_length = 0\<close>) the destination is the file name itself when the
  target directory does not hold it. Otherwise it is stem, \<open>_n\<close> and extension for the
  least \<open>n \<ge> 1\<close> whose name the directory does not hold. With \<open>a.txt\<close> in the
  directory, a file named \<open>a.txt\<close> goes to \<open>a_1.txt\<close>, and with both in the directory
  to \<open>a_2.txt\<close>.
\<close>

theorem mode_a_naming:
  assumes "prefix_length a = 0"
  shows "(name f |\<notin>| D \<longrightarrow> choose_dest ex a D f = Some (Inr (name f))) \<and>
         (name f |\<in>| D \<longrightarrow>
            (\<exists>n\<ge>1. choose_dest ex a D f =
                 Some (Inr (fst (splitext (name f)) @ ''_'' @ str (int n) @ snd (splitext (name f)))) \<and>
               fst (splitext (name f)) @ ''_'' @ str (int n) @ snd (splitext (name f)) |\<notin>| D \<and>
               (\<forall>k. 1 \<le> k \<and> k < n \<longrightarrow>
                  fst (splitext (name f)) @ ''_'' @ str (int k) @ snd (splitext (name f)) |\<in>| D))) \<and>
         (name f = ''a.txt'' \<and> D = {|''a.txt''|} \<longrightarrow> choose_dest ex a D f = Some (Inr ''a_1.txt'')) \<and>
         (name f = ''a.txt'' \<and> D = {|''a.txt'', ''a_1.txt''|} \<longrightarrow>
            choose_dest ex a D f = Some (Inr ''a_2.txt''))"
proof -
  have cd: "choose_dest ex a D f = map_option Inr (get_unique_path D (name f))"
    using assms by (simp add: choose_dest_def)
  obtain n where r: "get_unique_path D (name f) = Some (candidate (name f) n)"
    and fresh: "candidate (name f) n |\<notin>| D"
    and below: "\<forall>k<n. candidate (name f) k |\<in>| D"
    using get_unique_path_least [of D "name f"] by blast
  have 1: "name f |\<notin>| D \<longrightarrow> choose_dest ex a D f = Some (Inr (name f))"
  proof
    assume "name f |\<notin>| D"
    then have "candidate (name f) 0 |\<notin>| D" by (simp add: candidate_def)
    with below have "n = 0" by (cases "n = 0") auto
    with r cd show "choose_dest ex a D f = Some (Inr (name f))" by (simp add: candidate_def)
  qed
  have 2: "name f |\<in>| D \<longrightarrow>
            (\<exists>n\<ge>1. choose_dest ex a D f =
                 Some (Inr (fst (splitext (name f)) @ ''_'' @ str (int n) @ snd (splitext (name f)))) \<and>
               fst (splitext (name f)) @ ''_'' @ str (int n) @ snd (splitext (name f)) |\<notin>| D \<and>
               (\<forall>k. 1 \<le> k \<and> k < n \<longrightarrow>
                  fst (splitext (name f)) @ ''_'' @ str (int k) @ snd (splitext (name f)) |\<in>| D))"
  proof
    assume "name f |\<in>| D"
    with fresh have n: "1 \<le> n" by (cases "n = 0") (simp_all add: candidate_def)
    have c: "candidate (name f) k =
        fst (splitext (name f)) @ ''_'' @ str (int k) @ snd (splitext (name f))" if "1 \<le> k" for k
      using that by (simp add: candidate_def)
    have "\<forall>k. 1 \<le> k \<and> k < n \<longrightarrow>
        fst (splitext (name f)) @ ''_'' @ str (int k) @ snd (splitext (name f)) |\<in>| D"
      using below c by force
    with n r cd fresh c [OF n] show "\<exists>n\<ge>1. choose_dest ex a D f =
                 Some (Inr (fst (splitext (name f)) @ ''_'' @ str (int n) @ snd (splitext (name f)))) \<and>
               fst (splitext (name f)) @ ''_'' @ str (int n) @ snd (splitext (name f)) |\<notin>| D \<and>
               (\<forall>k. 1 \<le> k \<and> k < n \<longrightarrow>
                  fst (splitext (name f)) @ ''_'' @ str (int k) @ snd (splitext (name f)) |\<in>| D)"
      by (intro exI [of _ n]) simp
  qed
  have g1: "get_unique_path {|''a.txt''|} ''a.txt'' = Some ''a_1.txt''"
    by (simp add: get_unique_path_def splitext_def unique_loop.simps str_def str_nat.simps)
  have g2: "get_unique_path {|''a.txt'', ''a_1.txt''|} ''a.txt'' = Some ''a_2.txt''"
    by (simp add: get_unique_path_def splitext_def unique_loop.simps str_def str_nat.simps)
  have 3: "name f = ''a.txt'' \<and> D = {|''a.txt''|} \<longrightarrow> choose_dest ex a D f = Some (Inr ''a_1.txt'')"
    using cd g1 by auto
  have 4: "name f = ''a.txt'' \<and> D = {|''a.txt'', ''a_1.txt''|} \<longrightarrow>
      choose_dest ex a D f = Some (Inr ''a_2.txt'')"
    using cd g2 by auto
  from 1 2 3 4 show ?thesis by blast
qed

theorem mode_a_naming_witness:
  "choose_dest example_externals
     \<lparr>move = False, prefix_length = 0, extension = ''.txt'', case_sensitive = False, algorithm = ''SHA512''\<rparr>
     {||} \<lparr>name = ''a.txt'', is_file = True, in_target = False, content = Some []\<rparr> = Some (Inr ''a.txt'') \<and>
   choose_dest example_externals
     \<lparr>move = False, prefix_length = 0, extension = ''.txt'', case_sensitive = False, algorithm = ''SHA512''\<rparr>
     {|''a.txt''|} \<lparr>name = ''a.txt'', is_file = True, in_target = False, content = Some []\<rparr> = Some (Inr ''a_1.txt'') \<and>
   choose_dest example_externals
     \<lparr>move = False, prefix_length = 0, extension = ''.txt'', case_sensitive = False, algorithm = ''SHA512''\<rparr>
     {|''a.txt'', ''a_1.txt''|} \<lparr>name = ''a.txt'', is_file = True, in_target = False, content = Some []\<rparr> = Some (Inr ''a_2.txt'')"
proof -
  let ?a = "\<lparr>move = False, prefix_length = 0, extension = ''.txt'', case_sensitive = False,
    algorithm = ''SHA512''\<rparr>"
  let ?f = "\<lparr>name = ''a.txt'', is_file = True, in_target = False, content = Some ([] :: byte list)\<rparr>"
  have z: "prefix_length ?a = 0" by simp
  from mode_a_naming [OF z, of ?f "{||}" example_externals]
  have 1: "choose_dest example_externals ?a {||} ?f = Some (Inr ''a.txt'')" by simp
  from mode_a_naming [OF z, of ?f "{|''a.txt''|}" example_externals]
  have 2: "choose_dest example_externals ?a {|''a.txt''|} ?f = Some (Inr ''a_1.txt'')" by simp
  from mode_a_naming [OF z, of ?f "{|''a.txt'', ''a_1.txt''|}" example_externals]
  have 3: "choose_dest example_externals ?a {|''a.txt'', ''a_1.txt''|} ?f = Some (Inr ''a_2.txt'')" by simp
  from 1 2 3 show ?thesis by blast
qed

section \<open>Properties of the loop over the files\<close>




















section \<open>Properties of the extension test\<close>

lemma rfind_drop:
  "0 \<le> rfind c s \<Longrightarrow> \<exists>t. drop (nat (rfind c s)) s = c # t \<and> c \<notin> set t"
proof (induction s)
  case Nil
  then show ?case by simp
next
  case (Cons x xs)
  show ?case
  proof (cases "0 \<le> rfind c xs")
    case True
    then have "rfind c (x # xs) = rfind c xs + 1" by (simp add: Let_def)
    moreover from True have "nat (rfind c xs + 1) = Suc (nat (rfind c xs))" by simp
    ultimately show ?thesis using Cons.IH [OF True] by simp
  next
    case False
    with Cons.prems have x: "x = c" and z: "rfind c (x # xs) = 0"
      by (simp_all add: Let_def split: if_splits)
    have "c \<notin> set xs"
    proof
      assume "c \<in> set xs"
      then have "0 \<le> rfind c xs" by (induction xs) (auto simp: Let_def)
      with False show False by simp
    qed
    with x z show ?thesis by simp
  qed
qed

lemma suffix_shape:
  "suffix nm = [] \<or> (\<exists>t. suffix nm = CHR ''.'' # t \<and> CHR ''.'' \<notin> set t \<and> t \<noteq> [])"
proof (cases "0 < rfind (CHR ''.'') nm \<and> rfind (CHR ''.'') nm < int (length nm) - 1")
  case False
  then show ?thesis by (auto simp: suffix_def Let_def)
next
  case True
  then have s: "suffix nm = drop (nat (rfind (CHR ''.'') nm)) nm" by (simp add: suffix_def Let_def)
  from True obtain t where t: "drop (nat (rfind (CHR ''.'') nm)) nm = CHR ''.'' # t"
    "CHR ''.'' \<notin> set t"
    using rfind_drop [of "CHR ''.''" nm] by auto
  have "length (drop (nat (rfind (CHR ''.'') nm)) nm) = length nm - nat (rfind (CHR ''.'') nm)"
    by simp
  with True have "2 \<le> length (drop (nat (rfind (CHR ''.'') nm)) nm)" by linarith
  with t have "t \<noteq> []" by auto
  with s t show ?thesis by simp
qed

lemma lower_char_dot: "lower_char c = CHR ''.'' \<longleftrightarrow> c = CHR ''.''"
  by (simp add: lower_char_def ascii_lowercase_def ascii_uppercase_def)

lemma lower_no_dot: "CHR ''.'' \<in> set (lower s) \<longleftrightarrow> CHR ''.'' \<in> set s"
proof -
  have "CHR ''.'' \<in> lower_char ` set s \<longleftrightarrow> CHR ''.'' \<in> set s"
    using lower_char_dot by (metis image_iff)
  then show ?thesis by (simp add: lower_def)
qed

lemma normalized_ext_shape: "\<exists>r. normalized_ext e = CHR ''.'' # r"
  by (cases e) (simp_all add: normalized_ext_def)

lemma suffix_leading_dot: "CHR ''.'' \<notin> set s \<Longrightarrow> suffix (CHR ''.'' # s) = []"
proof -
  assume "CHR ''.'' \<notin> set s"
  then have "rfind (CHR ''.'') s = - 1" by (induction s) (auto simp: Let_def)
  then show ?thesis by (simp add: suffix_def Let_def)
qed

lemma multi_component_no_match:
  assumes "CHR ''.'' \<in> set (tl (normalized_ext (extension a)))"
  shows "\<not> match_ext a f"
proof
  assume m: "match_ext a f"
  obtain r where r: "normalized_ext (extension a) = CHR ''.'' # r"
    using normalized_ext_shape by blast
  with assms have dot: "CHR ''.'' \<in> set r" by simp
  from m r have eq: "suffix (name f) = CHR ''.'' # r \<or> lower (suffix (name f)) = lower (CHR ''.'' # r)"
    by (simp add: match_ext_def Let_def split: if_splits)
  from suffix_shape [of "name f"] show False
  proof
    assume "suffix (name f) = []"
    with eq show False by (simp add: lower_def)
  next
    assume "\<exists>t. suffix (name f) = CHR ''.'' # t \<and> CHR ''.'' \<notin> set t \<and> t \<noteq> []"
    then obtain t where t: "suffix (name f) = CHR ''.'' # t" "CHR ''.'' \<notin> set t" by blast
    from eq show False
    proof
      assume "suffix (name f) = CHR ''.'' # r"
      with t dot show False by simp
    next
      assume "lower (suffix (name f)) = lower (CHR ''.'' # r)"
      with t have "lower t = lower r" by (simp add: lower_def)
      moreover from dot have "CHR ''.'' \<in> set (lower r)" by (simp add: lower_no_dot)
      ultimately have "CHR ''.'' \<in> set (lower t)" by simp
      with t(2) show False by (simp add: lower_no_dot)
    qed
  qed
qed

lemma empty_suffix_no_match: "suffix (name f) = [] \<Longrightarrow> \<not> match_ext a f"
proof -
  assume e: "suffix (name f) = []"
  obtain r where "normalized_ext (extension a) = CHR ''.'' # r"
    using normalized_ext_shape by blast
  with e show ?thesis by (simp add: match_ext_def Let_def lower_def)
qed

text \<open>
  C10. The extension test reads nothing of a file name but its \<open>suffix\<close>, the text
  from the last dot on. A configured extension with a second dot, such as \<open>.tar.gz\<close>,
  therefore selects no file: the suffix of \<open>archive.tar.gz\<close> is \<open>.gz\<close>. A file whose
  name is a dot followed by text without a dot, such as \<open>.txt\<close>, has the empty suffix
  and is selected under no configured extension.
\<close>

theorem extension_test_uses_last_suffix:
  "(suffix (name f) = suffix (name g) \<longrightarrow> match_ext a f = match_ext a g) \<and>
   (CHR ''.'' \<in> set (tl (normalized_ext (extension a))) \<longrightarrow> \<not> match_ext a f) \<and>
   (extension a = ''.tar.gz'' \<longrightarrow> \<not> match_ext a f) \<and>
   suffix ''archive.tar.gz'' = ''.gz'' \<and>
   (\<forall>s. name f = CHR ''.'' # s \<and> CHR ''.'' \<notin> set s \<longrightarrow>
      suffix (name f) = [] \<and> \<not> match_ext a f) \<and>
   suffix ''.txt'' = []"
proof (intro conjI allI impI)
  assume "suffix (name f) = suffix (name g)"
  then show "match_ext a f = match_ext a g" by (simp add: match_ext_def)
next
  assume "CHR ''.'' \<in> set (tl (normalized_ext (extension a)))"
  then show "\<not> match_ext a f" by (rule multi_component_no_match)
next
  assume "extension a = ''.tar.gz''"
  then have "CHR ''.'' \<in> set (tl (normalized_ext (extension a)))"
    by (simp add: normalized_ext_def)
  then show "\<not> match_ext a f" by (rule multi_component_no_match)
next
  show "suffix ''archive.tar.gz'' = ''.gz''" by (simp add: suffix_def)
next
  fix s
  assume "name f = CHR ''.'' # s \<and> CHR ''.'' \<notin> set s"
  then show "suffix (name f) = []" by (simp add: suffix_leading_dot)
next
  fix s
  assume "name f = CHR ''.'' # s \<and> CHR ''.'' \<notin> set s"
  then have "suffix (name f) = []" by (simp add: suffix_leading_dot)
  then show "\<not> match_ext a f" by (rule empty_suffix_no_match)
next
  show "suffix ''.txt'' = []" by (simp add: suffix_def)
qed

theorem extension_test_uses_last_suffix_witness:
  "\<not> match_ext
       \<lparr>move = False, prefix_length = 0, extension = ''.tar.gz'', case_sensitive = False, algorithm = ''SHA512''\<rparr>
       \<lparr>name = ''archive.tar.gz'', is_file = True, in_target = False, content = Some []\<rparr> \<and>
   match_ext
       \<lparr>move = False, prefix_length = 0, extension = ''GZ'', case_sensitive = False, algorithm = ''SHA512''\<rparr>
       \<lparr>name = ''archive.tar.gz'', is_file = True, in_target = False, content = Some []\<rparr> \<and>
   \<not> match_ext
       \<lparr>move = False, prefix_length = 0, extension = ''.txt'', case_sensitive = True, algorithm = ''SHA512''\<rparr>
       \<lparr>name = ''.txt'', is_file = True, in_target = False, content = Some []\<rparr>"
proof -
  let ?a1 = "\<lparr>move = False, prefix_length = 0, extension = ''.tar.gz'', case_sensitive = False,
    algorithm = ''SHA512''\<rparr>"
  let ?a2 = "\<lparr>move = False, prefix_length = 0, extension = ''GZ'', case_sensitive = False,
    algorithm = ''SHA512''\<rparr>"
  let ?a3 = "\<lparr>move = False, prefix_length = 0, extension = ''.txt'', case_sensitive = True,
    algorithm = ''SHA512''\<rparr>"
  let ?f = "\<lparr>name = ''archive.tar.gz'', is_file = True, in_target = False, content = Some ([] :: byte list)\<rparr>"
  let ?g = "\<lparr>name = ''.txt'', is_file = True, in_target = False, content = Some ([] :: byte list)\<rparr>"
  from extension_test_uses_last_suffix [of ?f ?f ?a1] have 1: "\<not> match_ext ?a1 ?f" by simp
  have 2: "match_ext ?a2 ?f"
    by (simp add: match_ext_def normalized_ext_def suffix_def lower_def lower_char_def
        ascii_lowercase_def ascii_uppercase_def)
  from extension_test_uses_last_suffix [of ?g ?g ?a3] have 3: "\<not> match_ext ?a3 ?g" by simp
  from 1 2 3 show ?thesis by blast
qed

end
